theory Spec2Isabelle
  imports Complex_Main "HOL-Library.Monad_Syntax"
begin

section \<open>The gradient image generator of \<open>src/main.c\<close>\<close>

text \<open>
  The program has no input. It writes a plain-text image to standard output: three header
  lines, then one line per pixel of a 256 by 256 image, computed in \<open>double\<close> arithmetic
  and converted to \<open>int\<close>. The model below keeps the three ingredients apart:
  \<^item> the arithmetic of \<open>double\<close>: IEEE 754 binary64 with round to nearest, ties to even
    (the default rounding mode, every operation evaluated in the format of its type);
  \<^item> the \<open>%d\<close> conversion of \<open>printf\<close> and the text written to standard output;
  \<^item> the two nested \<open>for\<close> loops, as recursive functions that pass the output on.
\<close>

subsection \<open>Doubles\<close>

text \<open>
  A finite \<open>double\<close> is taken by its value, a rational number. An operation computes the
  exact result and rounds it; the result is \<open>None\<close> when IEEE 754 would give an infinity
  or a NaN (overflow, division by zero), which this model does not follow further. The
  sign of a zero is not represented: nothing in the program can observe it.
\<close>

type_synonym double = rat

text \<open>The number of binary digits of a natural number.\<close>

fun bit_length :: "nat \<Rightarrow> nat" where
  "bit_length n = (if n = 0 then 0 else Suc (bit_length (n div 2)))"

declare bit_length.simps [simp del]

text \<open>
  For \<open>x > 0\<close>, the exponent \<open>e\<close> with \<open>2\<^sup>e \<le> x < 2\<^sup>e\<^sup>+\<^sup>1\<close>. The bit lengths of numerator
  and denominator give it up to one, and a comparison decides.
\<close>

definition ilog2 :: "rat \<Rightarrow> int" where
  "ilog2 x = (case quotient_of x of (n, d) \<Rightarrow>
     (let k = int (bit_length (nat n)) - int (bit_length (nat d))
      in if 2 powi k \<le> x then k else k - 1))"

definition round_half_even :: "rat \<Rightarrow> int" where
  "round_half_even x = (let f = \<lfloor>x\<rfloor>; r = x - of_int f in
     if r < 1 / 2 then f
     else if 1 / 2 < r then f + 1
     else if even f then f else f + 1)"

text \<open>
  Rounding to binary64: 53 significant bits, the exponent of the last place not below
  \<open>-1074\<close> (subnormal numbers), overflow from \<open>2\<^sup>1\<^sup>0\<^sup>2\<^sup>4\<close> on.
\<close>

definition round_to_double :: "rat \<Rightarrow> double option" where
  "round_to_double x = (if x = 0 then Some 0 else
     (let e = max (ilog2 \<bar>x\<bar>) (- 1022);
          ulp = 2 powi (e - 52);
          y = of_int (round_half_even (x / ulp)) * ulp
      in if \<bar>y\<bar> < 2 powi 1024 then Some y else None))"

text \<open>The conversion \<open>(double) n\<close> of an \<open>int\<close>, also the implicit one of an operand.\<close>

definition double_of_int :: "int \<Rightarrow> double option" where
  "double_of_int n = round_to_double (of_int n)"

text \<open>A decimal floating constant denotes the double nearest to its decimal value.\<close>

definition double_literal :: "rat \<Rightarrow> double option" where
  "double_literal q = round_to_double q"

definition double_div :: "double \<Rightarrow> double \<Rightarrow> double option" where
  "double_div a b = (if b = 0 then None else round_to_double (a / b))"

definition double_mul :: "double \<Rightarrow> double \<Rightarrow> double option" where
  "double_mul a b = round_to_double (a * b)"

text \<open>
  The conversion of a \<open>double\<close> to \<open>int\<close> (32 bits) discards the fractional part; the
  behaviour is undefined when the integral part is not an \<open>int\<close>, which is \<open>None\<close> here.
\<close>

definition int_of_double :: "double \<Rightarrow> int option" where
  "int_of_double x = (let t = (if 0 \<le> x then \<lfloor>x\<rfloor> else \<lceil>x\<rceil>) in
     if - (2 ^ 31) \<le> t \<and> t < 2 ^ 31 then Some t else None)"

subsection \<open>Formatted output\<close>

definition digit_char :: "nat \<Rightarrow> char" where
  "digit_char d = ''0123456789'' ! d"

fun show_nat :: "nat \<Rightarrow> string" where
  "show_nat n = (if n < 10 then [digit_char n]
     else show_nat (n div 10) @ [digit_char (n mod 10)])"

declare show_nat.simps [simp del]

text \<open>The text of the conversion \<open>%d\<close>.\<close>

definition show_int :: "int \<Rightarrow> string" where
  "show_int n = (if n < 0 then CHR ''-'' # show_nat (nat (- n)) else show_nat (nat n))"

text \<open>
  \<open>printf\<close> for the format strings of the program: \<open>%d\<close> takes the next argument, every
  other character is copied. The result is the text appended to standard output. A \<open>%d\<close>
  with no argument left, which the program never has, prints nothing.
\<close>

fun printf :: "string \<Rightarrow> int list \<Rightarrow> string" where
  "printf [] args = []"
| "printf [c] args = [c]"
| "printf (c # d # fs) args =
     (if c = CHR ''%'' \<and> d = CHR ''d'' then
        (case args of [] \<Rightarrow> printf fs [] | a # as \<Rightarrow> show_int a @ printf fs as)
      else c # printf (d # fs) args)"

subsection \<open>The program\<close>

text \<open>
  The \<open>int\<close> variables are integers: every value they take lies between 0 and 256, far
  from the bounds of \<open>int\<close>, so no operation on them overflows.

  The channel ratio \<open>(double) k / (n - 1)\<close> and the intensity \<open>255.999 * x\<close> converted to
  \<open>int\<close>, the two expressions that the loop body evaluates for each channel.
\<close>

definition ratio :: "int \<Rightarrow> int \<Rightarrow> double option" where
  "ratio n k = do {
     dk \<leftarrow> double_of_int k;
     dn \<leftarrow> double_of_int (n - 1);
     double_div dk dn }"

definition intensity :: "double \<Rightarrow> int option" where
  "intensity x = do {
     c \<leftarrow> double_literal (255999 / 1000);
     p \<leftarrow> double_mul c x;
     int_of_double p }"

text \<open>The loop body up to the call of \<open>printf\<close>: the values \<open>ir\<close>, \<open>ig\<close>, \<open>ib\<close>.\<close>

definition pixel :: "int \<Rightarrow> int \<Rightarrow> int \<Rightarrow> int \<Rightarrow> (int \<times> int \<times> int) option" where
  "pixel image_width image_height j i = do {
     r \<leftarrow> ratio image_width i;
     g \<leftarrow> ratio image_height j;
     b \<leftarrow> double_of_int 0;
     ir \<leftarrow> intensity r;
     ig \<leftarrow> intensity g;
     ib \<leftarrow> intensity b;
     Some (ir, ig, ib) }"

definition pixel_line :: "int \<times> int \<times> int \<Rightarrow> string" where
  "pixel_line p = (case p of (ir, ig, ib) \<Rightarrow> printf ''%d %d %d\<newline>'' [ir, ig, ib])"

text \<open>The inner loop, from column \<open>i\<close> on, with the output written so far.\<close>

function inner_loop :: "int \<Rightarrow> int \<Rightarrow> int \<Rightarrow> int \<Rightarrow> string \<Rightarrow> string option" where
  "inner_loop image_width image_height j i out =
     (if i < image_width then
        (case pixel image_width image_height j i of
           None \<Rightarrow> None
         | Some p \<Rightarrow> inner_loop image_width image_height j (i + 1) (out @ pixel_line p))
      else Some out)"
  by pat_completeness auto
termination
  by (relation "measure (\<lambda>(w, h, j, i, out). nat (w - i))") auto

declare inner_loop.simps [simp del]

text \<open>The outer loop, from row \<open>j\<close> on.\<close>

function outer_loop :: "int \<Rightarrow> int \<Rightarrow> int \<Rightarrow> string \<Rightarrow> string option" where
  "outer_loop image_width image_height j out =
     (if j < image_height then
        (case inner_loop image_width image_height j 0 out of
           None \<Rightarrow> None
         | Some out' \<Rightarrow> outer_loop image_width image_height (j + 1) out')
      else Some out)"
  by pat_completeness auto
termination
  by (relation "measure (\<lambda>(w, h, j, out). nat (h - j))") auto

declare outer_loop.simps [simp del]

text \<open>The whole program: what standard output holds when \<open>main\<close> returns.\<close>

definition main :: "string option" where
  "main = (let image_width = 256; image_height = 256;
               out = printf ''P3\<newline>'' [];
               out = out @ printf ''%d %d\<newline>'' [image_width, image_height];
               out = out @ printf ''255\<newline>'' []
           in outer_loop image_width image_height 0 out)"

subsection \<open>Lines of a text\<close>

text \<open>
  The lines of a text are its pieces between line feeds; a last piece without a line feed
  counts when it is not empty.
\<close>

fun split_lines :: "string \<Rightarrow> string \<Rightarrow> string list" where
  "split_lines acc [] = (if acc = [] then [] else [acc])"
| "split_lines acc (c # cs) =
     (if c = CHR 0x0A then acc # split_lines [] cs else split_lines (acc @ [c]) cs)"

definition lines_of :: "string \<Rightarrow> string list" where
  "lines_of s = split_lines [] s"

definition unlines :: "string list \<Rightarrow> string" where
  "unlines ls = concat (map (\<lambda>l. l @ [CHR 0x0A]) ls)"

subsection \<open>The contract in the specification's words\<close>

text \<open>
  A pixel line holds three integers separated by single spaces, each as \<open>%d\<close> prints it.
\<close>

definition triple_line :: "int \<Rightarrow> int \<Rightarrow> int \<Rightarrow> string" where
  "triple_line a b c = show_int a @ '' '' @ show_int b @ '' '' @ show_int c"

text \<open>
  The specification computes in exact arithmetic: the intensity of a channel ratio is
  \<open>floor (channel_ratio * 255.999)\<close>, the ratios are \<open>r = i / (W - 1)\<close>, \<open>g = j / (H - 1)\<close>
  and \<open>b = 0\<close>. These two definitions follow its words, not the code, and are compared
  with \<open>pixel\<close> below.
\<close>

definition spec_intensity :: "rat \<Rightarrow> int" where
  "spec_intensity channel_ratio = \<lfloor>channel_ratio * (255999 / 1000)\<rfloor>"

definition spec_pixel :: "int \<Rightarrow> int \<Rightarrow> int \<Rightarrow> int \<Rightarrow> int \<times> int \<times> int" where
  "spec_pixel W H j i =
     (let r = of_int i / of_int (W - 1);
          g = of_int j / of_int (H - 1);
          b = 0
      in (spec_intensity r, spec_intensity g, spec_intensity b))"

section \<open>Properties of the rounding\<close>

text \<open>
  Two facts about \<open>round_to_double\<close> carry the arithmetic of the program: an integer
  below \<open>2\<^sup>5\<^sup>3\<close> is a double, and the rounding of a positive number moves it by at
  most half a unit in the last place.
\<close>

lemma bit_length_bounds:
  "0 < n \<Longrightarrow> 2 ^ (bit_length n - 1) \<le> n \<and> n < 2 ^ bit_length n"
proof (induction n rule: bit_length.induct)
  case (1 n)
  show ?case
  proof (cases "n div 2 = 0")
    case True
    with 1(2) have "n = 1" by presburger
    then show ?thesis
      by (simp add: bit_length.simps [of "Suc 0"] bit_length.simps [of 0])
  next
    case False
    then have pos: "0 < n div 2" by simp
    from 1(1) [OF _ pos] 1(2)
    have lo: "2 ^ (bit_length (n div 2) - 1) \<le> n div 2"
      and hi: "n div 2 < 2 ^ bit_length (n div 2)" by simp_all
    have bl: "bit_length n = Suc (bit_length (n div 2))"
      using 1(2) by (simp add: bit_length.simps [of n])
    have "0 < bit_length (n div 2)"
      using pos by (simp add: bit_length.simps [of "n div 2"])
    then have tw: "(2::nat) ^ bit_length (n div 2) = 2 * 2 ^ (bit_length (n div 2) - 1)"
      by (cases "bit_length (n div 2)") simp_all
    define p :: nat where "p = 2 ^ (bit_length (n div 2) - 1)"
    have "p \<le> n div 2" "n div 2 < 2 * p"
      using lo hi tw by (simp_all add: p_def)
    then have "2 * p \<le> n \<and> n < 2 * (2 * p)" by arith
    then show ?thesis by (simp add: bl tw p_def)
  qed
qed

lemma ilog2_le:
  assumes "0 < x"
  shows "2 powi ilog2 x \<le> x"
proof -
  obtain n d where q: "quotient_of x = (n, d)" by force
  have d: "0 < d" using quotient_of_denom_pos [OF q] .
  have x: "x = of_int n / of_int d" using quotient_of_div [OF q] .
  have n: "0 < n" using assms d by (simp add: x zero_less_divide_iff)
  define a where "a = bit_length (nat n)"
  define b where "b = bit_length (nat d)"
  have na: "(2::nat) ^ (a - 1) \<le> nat n" and a0: "0 < a"
    using bit_length_bounds [of "nat n"] n
    by (simp_all add: a_def bit_length.simps [of "nat n"])
  have db: "nat d < 2 ^ b"
    using bit_length_bounds [of "nat d"] d by (simp add: b_def)
  have na': "(2::rat) ^ (a - 1) \<le> of_int n"
  proof -
    have "(of_nat (2 ^ (a - 1)) :: rat) \<le> of_nat (nat n)"
      using na by (rule iffD2 [OF of_nat_le_iff])
    then show ?thesis using n by simp
  qed
  have db': "of_int d < (2::rat) ^ b"
  proof -
    have "(of_nat (nat d) :: rat) < of_nat (2 ^ b)"
      using db by (rule iffD2 [OF of_nat_less_iff])
    then show ?thesis using d by simp
  qed
  have "(2::rat) powi (int a - int b - 1) = 2 ^ (a - 1) / 2 ^ b"
  proof -
    have "(2::rat) powi (int a - int b - 1) = 2 powi (int (a - 1) - int b)"
      using a0 by (intro arg_cong [where f = "power_int 2"]) simp
    also have "\<dots> = 2 powi int (a - 1) / 2 powi int b"
      by (rule power_int_diff) simp
    finally show ?thesis by simp
  qed
  also have "\<dots> \<le> of_int n / 2 ^ b"
    using na' by (simp add: divide_right_mono)
  also have "\<dots> \<le> of_int n / of_int d"
    using db' d n by (intro divide_left_mono) simp_all
  finally have low: "(2::rat) powi (int a - int b - 1) \<le> x" by (simp add: x)
  show ?thesis
    using low by (simp add: ilog2_def q Let_def a_def b_def)
qed

lemma round_half_even_error: "\<bar>of_int (round_half_even t) - t\<bar> \<le> 1 / 2"
proof -
  have "of_int \<lfloor>t\<rfloor> \<le> t" "t < of_int \<lfloor>t\<rfloor> + 1" by linarith+
  then show ?thesis
    by (auto simp: round_half_even_def Let_def)
qed

lemma round_half_even_of_int [simp]: "round_half_even (of_int m) = m"
  by (simp add: round_half_even_def)

lemma round_to_double_of_int:
  assumes "0 \<le> n" "n < 2 ^ 53"
  shows "round_to_double (of_int n) = Some (of_int n)"
proof (cases "n = 0")
  case True
  then show ?thesis by (simp add: round_to_double_def)
next
  case False
  with assms have pos: "0 < (of_int n :: rat)" by simp
  define e where "e = max (ilog2 (of_int n)) (- 1022)"
  have "ilog2 (of_int n) < 53"
  proof (rule ccontr)
    assume "\<not> ilog2 (of_int n) < 53"
    then have "(2::rat) powi 53 \<le> 2 powi ilog2 (of_int n)"
      by (intro power_int_increasing) simp_all
    also have "\<dots> \<le> of_int n" using pos by (rule ilog2_le)
    finally have "(2::rat) ^ 53 \<le> of_int n" by simp
    then have "(of_int (2 ^ 53) :: rat) \<le> of_int n" by simp
    then have "(2::int) ^ 53 \<le> n" by (simp only: of_int_le_iff)
    with assms(2) show False by simp
  qed
  then have e: "e \<le> 52" by (simp add: e_def)
  define k where "k = nat (52 - e)"
  have ulp: "(2::rat) powi (e - 52) = 1 / 2 ^ k"
  proof -
    have "e - 52 = - int k" using e by (simp add: k_def)
    then show ?thesis by (simp add: power_int_minus_divide)
  qed
  have "of_int n / (2::rat) powi (e - 52) = of_int (n * 2 ^ k)"
    by (simp add: ulp)
  then have rt: "of_int (round_half_even (of_int n / (2::rat) powi (e - 52))) * 2 powi (e - 52)
      = (of_int n :: rat)"
    by (simp only: round_half_even_of_int) (simp add: ulp)
  have "(of_int n :: rat) < of_int (2 ^ 53)"
    using assms(2) by (simp only: of_int_less_iff)
  also have "\<dots> = (2::rat) ^ 53" by simp
  also have "\<dots> \<le> 2 ^ 1024" by (rule power_increasing) simp_all
  finally have "\<bar>of_int n :: rat\<bar> < 2 powi 1024" using pos by simp
  then show ?thesis
    using pos rt
    by (simp add: round_to_double_def Let_def e_def [symmetric] del: power_int_numeral)
qed

lemma round_to_double_error:
  assumes "0 < x" "x \<le> 2 ^ 10"
  shows "\<exists>y. round_to_double x = Some y \<and> \<bar>y - x\<bar> \<le> max x 1 / 2 ^ 53"
proof -
  define e where "e = max (ilog2 \<bar>x\<bar>) (- 1022)"
  define ulp :: rat where "ulp = 2 powi (e - 52)"
  define y where "y = of_int (round_half_even (x / ulp)) * ulp"
  have ulp_pos: "0 < ulp" by (simp add: ulp_def)
  have "(2::rat) powi e \<le> max x 1"
  proof (cases "ilog2 \<bar>x\<bar> \<le> - 1022")
    case True
    then have "e = - 1022" by (simp add: e_def)
    then have "(2::rat) powi e = 1 / 2 ^ 1022"
      by (simp add: power_int_minus_divide)
    also have "\<dots> \<le> 1" by simp
    finally show ?thesis by simp
  next
    case False
    then have "e = ilog2 x" using assms(1) by (simp add: e_def)
    then have "(2::rat) powi e \<le> x" using ilog2_le [OF assms(1)] by simp
    then show ?thesis by simp
  qed
  moreover have "ulp = 2 powi e / 2 ^ 52"
    unfolding ulp_def by (subst power_int_diff) simp_all
  ultimately have ulp_le: "ulp / 2 \<le> max x 1 / 2 ^ 53"
    by (simp add: divide_right_mono)
  have "y - x = (of_int (round_half_even (x / ulp)) - x / ulp) * ulp"
    using ulp_pos by (simp add: y_def algebra_simps)
  then have "\<bar>y - x\<bar> = \<bar>of_int (round_half_even (x / ulp)) - x / ulp\<bar> * ulp"
    using ulp_pos by (simp add: abs_mult)
  also have "\<dots> \<le> (1 / 2) * ulp"
    using ulp_pos round_half_even_error [of "x / ulp"]
    by (intro mult_right_mono) simp_all
  finally have err: "\<bar>y - x\<bar> \<le> max x 1 / 2 ^ 53" using ulp_le by simp
  have m: "max x 1 \<le> 1024" "0 < max x 1" using assms by simp_all
  note err
  also have "max x 1 / 2 ^ 53 \<le> max x 1 / 1"
    using m(2) by (intro divide_left_mono) simp_all
  also have "\<dots> \<le> 1024" using m(1) by simp
  finally have "\<bar>y - x\<bar> \<le> 1024" .
  with assms have "\<bar>y\<bar> \<le> 2 ^ 11" by simp
  also have "(2::rat) ^ 11 < 2 ^ 1024" by (rule power_strict_increasing) simp_all
  finally have "\<bar>y\<bar> < 2 powi 1024" by simp
  then have "round_to_double x = Some y"
    unfolding round_to_double_def Let_def e_def [symmetric] ulp_def [symmetric]
      y_def [symmetric]
    using assms(1) by simp
  with err show ?thesis by simp
qed

subsection \<open>The rounding on known doubles\<close>

text \<open>
  The doubles nearest to \<open>0.1\<close> and to \<open>255.999\<close>, and two ties above \<open>2\<^sup>5\<^sup>3\<close>, where
  every second integer is a double: \<open>2\<^sup>5\<^sup>3 + 1\<close> goes down and \<open>2\<^sup>5\<^sup>3 + 3\<close> goes up, to the
  even significand.
\<close>

lemma quotient_of_tenth: "quotient_of (1 / 10) = (1, 10)"
  by code_simp

lemma quotient_of_255_999: "quotient_of (255999 / 1000) = (255999, 1000)"
  by code_simp

lemma floor_rat_numeral: "\<lfloor>(numeral a / numeral b :: rat)\<rfloor> = numeral a div numeral b"
  using floor_divide_of_int_eq [of "numeral a" "numeral b", where ?'a = rat] by simp

lemma round_to_double_tenth:
  "round_to_double (1 / 10) = Some (3602879701896397 / 36028797018963968)"
  by (simp add: round_to_double_def ilog2_def round_half_even_def Let_def bit_length.simps
      quotient_of_tenth floor_rat_numeral)

lemma round_to_double_255_999:
  "round_to_double (255999 / 1000) = Some (9007164070368903 / 35184372088832)"
  by (simp add: round_to_double_def ilog2_def round_half_even_def Let_def bit_length.simps
      quotient_of_255_999 floor_rat_numeral)

lemma round_to_double_tie_down: "round_to_double 9007199254740993 = Some 9007199254740992"
  by (simp add: round_to_double_def ilog2_def round_half_even_def Let_def bit_length.simps
      floor_rat_numeral)

lemma round_to_double_tie_up: "round_to_double 9007199254740995 = Some 9007199254740996"
  by (simp add: round_to_double_def ilog2_def round_half_even_def Let_def bit_length.simps
      floor_rat_numeral)

section \<open>The channel values\<close>

text \<open>
  The ratio \<open>k / 255\<close> is rounded once, the constant \<open>255.999\<close> once and their product
  once. The three errors together stay below \<open>10\<^sup>-\<^sup>1\<^sup>2\<close>, while the exact product
  \<open>k + 0.999 k / 255\<close> keeps a distance of at least \<open>0.001\<close> from the next integer and, for
  \<open>k \<ge> 1\<close>, of at least \<open>0.0039\<close> from \<open>k\<close>. So the conversion to \<open>int\<close> gives \<open>k\<close>.
\<close>

lemma ratio_256:
  assumes "0 \<le> k" "k \<le> 255"
  shows "\<exists>r. ratio 256 k = Some r \<and> \<bar>r - of_int k / 255\<bar> \<le> 1 / 2 ^ 53 \<and> (k = 0 \<longrightarrow> r = 0)"
proof -
  have dk: "double_of_int k = Some (of_int k)"
    unfolding double_of_int_def using assms by (intro round_to_double_of_int) simp_all
  have "double_of_int 255 = Some (of_int 255)"
    unfolding double_of_int_def by (intro round_to_double_of_int) simp_all
  then have dn: "double_of_int 255 = Some 255" by simp
  have r: "ratio 256 k = round_to_double (of_int k / 255)"
    by (simp add: ratio_def dk dn double_div_def)
  show ?thesis
  proof (cases "k = 0")
    case True
    with r show ?thesis by (simp add: round_to_double_def)
  next
    case False
    with assms have "1 \<le> k" by simp
    then have "(of_int 1 :: rat) \<le> of_int k" by (simp only: of_int_le_iff)
    moreover have "(of_int k :: rat) \<le> of_int 255"
      using assms(2) by (simp only: of_int_le_iff)
    ultimately have q: "0 < (of_int k / 255 :: rat)" "(of_int k / 255 :: rat) \<le> 1"
      by simp_all
    then have "(of_int k / 255 :: rat) \<le> 2 ^ 10" by simp
    from round_to_double_error [OF q(1) this]
    obtain y where y: "round_to_double (of_int k / 255) = Some y"
      "\<bar>y - of_int k / 255\<bar> \<le> max (of_int k / 255) 1 / 2 ^ 53" by blast
    have "max (of_int k / 255 :: rat) 1 = 1" using q(2) by simp
    with y False show ?thesis by (simp add: r)
  qed
qed

lemma intensity_zero: "intensity 0 = Some 0"
proof -
  have "\<exists>c. round_to_double (255999 / 1000) = Some c"
    using round_to_double_error [of "255999 / 1000"] by auto
  then show ?thesis
    by (auto simp: intensity_def double_literal_def double_mul_def round_to_double_def [of 0]
        int_of_double_def)
qed

lemma intensity_ratio:
  assumes k: "1 \<le> k" "k \<le> 255"
    and r: "\<bar>r - of_int k / 255\<bar> \<le> 1 / 2 ^ 53"
  shows "intensity r = Some k"
proof -
  define K :: rat where "K = of_int k"
  define q :: rat where "q = K / 255"
  have "(of_int 1 :: rat) \<le> of_int k" using k(1) by (simp only: of_int_le_iff)
  moreover have "(of_int k :: rat) \<le> of_int 255" using k(2) by (simp only: of_int_le_iff)
  ultimately have kr: "1 \<le> K" "K \<le> 255" by (simp_all add: K_def)
  then have q: "0 \<le> q" "q \<le> 1" by (simp_all add: q_def)
  have rq: "\<bar>r - q\<bar> \<le> 1 / 2 ^ 53" using r by (simp add: q_def K_def)
  then have "\<bar>r - q\<bar> \<le> 1" by (rule order_trans) simp
  then have r2: "\<bar>r\<bar> \<le> 2" using q by linarith
  obtain c where c: "round_to_double (255999 / 1000) = Some c"
    and "\<bar>c - 255999 / 1000\<bar> \<le> max (255999 / 1000) 1 / 2 ^ 53"
    using round_to_double_error [of "255999 / 1000"] by auto
  then have cb: "\<bar>c - 255999 / 1000\<bar> \<le> 256 / 2 ^ 53" by simp
  have "c * r - C * q = (c - C) * r + C * (r - q)" for C :: rat
    by (simp add: algebra_simps)
  from this [of "255999 / 1000"]
  have "\<bar>c * r - 255999 / 1000 * q\<bar>
      \<le> \<bar>c - 255999 / 1000\<bar> * \<bar>r\<bar> + 255999 / 1000 * \<bar>r - q\<bar>"
    using abs_triangle_ineq [of "(c - 255999 / 1000) * r" "255999 / 1000 * (r - q)"]
    by (simp only: abs_mult)
  also have "\<dots> \<le> 256 / 2 ^ 53 * 2 + 255999 / 1000 * (1 / 2 ^ 53)"
    using cb r2 rq by (intro add_mono mult_mono) simp_all
  also have "\<dots> \<le> 1 / 2000000000000" by simp
  finally have pb: "\<bar>c * r - 255999 / 1000 * q\<bar> \<le> 1 / 2000000000000" .
  have cq: "255999 / 1000 * q = K + K * (999 / 255000)"
    by (simp add: q_def field_simps)
  note pb' = pb [unfolded cq]
  have x: "0 < c * r" "c * r \<le> 257"
    using pb' kr by linarith+
  then have "c * r \<le> 2 ^ 10" by simp
  from round_to_double_error [OF x(1) this]
  obtain p where p: "round_to_double (c * r) = Some p"
    and "\<bar>p - c * r\<bar> \<le> max (c * r) 1 / 2 ^ 53" by blast
  moreover have "max (c * r) 1 / 2 ^ 53 \<le> 257 / 2 ^ 53"
    using x(2) by (intro divide_right_mono) simp_all
  moreover have "(257 / 2 ^ 53 :: rat) \<le> 1 / 2000000000000" by simp
  ultimately have "\<bar>p - c * r\<bar> \<le> 1 / 2000000000000" by linarith
  with pb' kr have "K \<le> p" "p < K + 1"
    by linarith+
  then have fl: "\<lfloor>p\<rfloor> = k" unfolding K_def by (intro floor_unique)
  have "0 \<le> p" using \<open>K \<le> p\<close> kr by simp
  with fl k have "int_of_double p = Some k" by (simp add: int_of_double_def)
  then show ?thesis
    by (simp add: intensity_def double_literal_def double_mul_def c p)
qed

lemma pixel_256:
  assumes "0 \<le> j" "j \<le> 255" "0 \<le> i" "i \<le> 255"
  shows "pixel 256 256 j i = Some (i, j, 0)"
proof -
  have ch: "\<exists>r. ratio 256 k = Some r \<and> intensity r = Some k" if "0 \<le> k" "k \<le> 255" for k
  proof -
    from ratio_256 [OF that] obtain r where r: "ratio 256 k = Some r"
      "\<bar>r - of_int k / 255\<bar> \<le> 1 / 2 ^ 53" "k = 0 \<longrightarrow> r = 0" by blast
    show ?thesis
    proof (cases "k = 0")
      case True
      with r show ?thesis by (simp add: intensity_zero)
    next
      case False
      with that have "1 \<le> k" by simp
      from intensity_ratio [OF this that(2) r(2)] r(1) show ?thesis by simp
    qed
  qed
  obtain r where r: "ratio 256 i = Some r" "intensity r = Some i"
    using ch [OF assms(3,4)] by blast
  obtain g where g: "ratio 256 j = Some g" "intensity g = Some j"
    using ch [OF assms(1,2)] by blast
  have z: "double_of_int 0 = Some 0"
    by (simp add: double_of_int_def round_to_double_def)
  show ?thesis
    by (simp add: pixel_def r g z intensity_zero)
qed

text \<open>
  In exact arithmetic \<open>k / 255 * 255.999 = k + 0.999 k / 255\<close>, whose integral part is \<open>k\<close>.
\<close>

lemma spec_intensity_ratio:
  assumes "0 \<le> k" "k \<le> 255"
  shows "spec_intensity (of_int k / 255) = k"
proof -
  define K :: rat where "K = of_int k"
  have "(of_int 0 :: rat) \<le> of_int k" using assms(1) by (simp only: of_int_le_iff)
  moreover have "(of_int k :: rat) \<le> of_int 255"
    using assms(2) by (simp only: of_int_le_iff)
  ultimately have kr: "0 \<le> K" "K \<le> 255" by (simp_all add: K_def)
  have e: "K / 255 * (255999 / 1000) = K + K * (999 / 255000)" by simp
  have "K \<le> K / 255 * (255999 / 1000)" "K / 255 * (255999 / 1000) < K + 1"
    unfolding e using kr by linarith+
  then show ?thesis
    unfolding spec_intensity_def K_def by (intro floor_unique)
qed

lemma spec_pixel_256:
  assumes "0 \<le> j" "j \<le> 255" "0 \<le> i" "i \<le> 255"
  shows "spec_pixel 256 256 j i = (i, j, 0)"
  using spec_intensity_ratio [OF assms(1,2)] spec_intensity_ratio [OF assms(3,4)]
  by (simp add: spec_pixel_def spec_intensity_def)

section \<open>The text written\<close>

text \<open>
  The digits of \<open>%d\<close> contain neither a line feed nor a space, so the lines of the output
  are the pieces that the calls of \<open>printf\<close> end with a line feed.
\<close>

lemma digit_char_digit: "d < 10 \<Longrightarrow> digit_char d \<in> set ''0123456789''"
  unfolding digit_char_def by (rule nth_mem) simp

lemma show_nat_digits: "set (show_nat n) \<subseteq> set ''0123456789''"
proof (induction n rule: show_nat.induct)
  case (1 n)
  show ?case
  proof (cases "n < 10")
    case True
    then show ?thesis
      using digit_char_digit [of n] by (simp add: show_nat.simps [of n])
  next
    case False
    have "n mod 10 < 10" by simp
    from digit_char_digit [OF this] 1 [OF False] False show ?thesis
      by (simp add: show_nat.simps [of n])
  qed
qed

lemma show_int_no_newline: "CHR 0x0A \<notin> set (show_int n)"
  using show_nat_digits [of "nat n"] show_nat_digits [of "nat (- n)"]
  by (auto simp: show_int_def)

lemma show_int_no_space: "CHR '' '' \<notin> set (show_int n)"
  using show_nat_digits [of "nat n"] show_nat_digits [of "nat (- n)"]
  by (auto simp: show_int_def)

lemma triple_line_no_newline: "CHR 0x0A \<notin> set (triple_line a b c)"
  by (simp add: triple_line_def show_int_no_newline)

lemma pixel_line_triple: "pixel_line (a, b, c) = triple_line a b c @ [CHR 0x0A]"
  by (simp add: pixel_line_def triple_line_def)

lemma split_lines_line:
  "CHR 0x0A \<notin> set l \<Longrightarrow>
    split_lines acc (l @ CHR 0x0A # rest) = (acc @ l) # split_lines [] rest"
  by (induction l arbitrary: acc) auto

lemma lines_of_unlines:
  "\<forall>l \<in> set ls. CHR 0x0A \<notin> set l \<Longrightarrow> lines_of (unlines ls) = ls"
  unfolding lines_of_def unlines_def
  by (induction ls) (simp_all add: split_lines_line)

text \<open>
  The loops run to their end when every loop body yields its values, and append one line
  per pixel, rows from \<open>j\<close> on, columns from \<open>i\<close> on.
\<close>

lemma inner_loop_run:
  assumes "\<And>i'. i \<le> i' \<Longrightarrow> i' < w \<Longrightarrow> pixel w h j i' = Some (f i')"
  shows "inner_loop w h j i out = Some (out @ concat (map (\<lambda>i'. pixel_line (f i')) [i..w - 1]))"
  using assms
proof (induction w h j i out rule: inner_loop.induct)
  case (1 w h j i out)
  show ?case
  proof (cases "i < w")
    case True
    have p: "pixel w h j i = Some (f i)" using 1(2) True by simp
    have "inner_loop w h j (i + 1) (out @ pixel_line (f i))
        = Some ((out @ pixel_line (f i)) @ concat (map (\<lambda>i'. pixel_line (f i')) [i + 1..w - 1]))"
      using True p 1(2) by (intro 1(1)) simp_all
    moreover have "[i..w - 1] = i # [i + 1..w - 1]"
      using True by (intro upto_rec1) simp
    ultimately show ?thesis
      using True p by (simp add: inner_loop.simps [of w h j i out])
  next
    case False
    then show ?thesis by (simp add: inner_loop.simps [of w h j i out])
  qed
qed

lemma outer_loop_run:
  assumes "\<And>j' i'. j \<le> j' \<Longrightarrow> j' < h \<Longrightarrow> 0 \<le> i' \<Longrightarrow> i' < w \<Longrightarrow>
      pixel w h j' i' = Some (f j' i')"
  shows "outer_loop w h j out = Some (out @
      concat (map (\<lambda>j'. concat (map (\<lambda>i'. pixel_line (f j' i')) [0..w - 1])) [j..h - 1]))"
  using assms
proof (induction w h j out rule: outer_loop.induct)
  case (1 w h j out)
  show ?case
  proof (cases "j < h")
    case True
    define row where "row = concat (map (\<lambda>i'. pixel_line (f j i')) [0..w - 1])"
    have r: "inner_loop w h j 0 out = Some (out @ row)"
      unfolding row_def using True 1(2) by (intro inner_loop_run) simp_all
    have "outer_loop w h (j + 1) (out @ row) = Some ((out @ row) @
        concat (map (\<lambda>j'. concat (map (\<lambda>i'. pixel_line (f j' i')) [0..w - 1])) [j + 1..h - 1]))"
      using True r 1(2) by (intro 1(1)) simp_all
    moreover have "[j..h - 1] = j # [j + 1..h - 1]"
      using True by (intro upto_rec1) simp
    ultimately show ?thesis
      using True r by (simp add: outer_loop.simps [of w h j out] row_def)
  next
    case False
    then show ?thesis by (simp add: outer_loop.simps [of w h j out])
  qed
qed

text \<open>The output of \<open>main\<close> as a list of lines, and the line at a given index.\<close>

lemma unlines_append: "unlines (xs @ ys) = unlines xs @ unlines ys"
  by (simp add: unlines_def)

lemma unlines_concat: "unlines (concat xss) = concat (map unlines xss)"
  by (induction xss) (simp_all add: unlines_def)

lemma row_text:
  "concat (map (\<lambda>i. pixel_line (G i, j, 0)) xs) = unlines (map (\<lambda>i. triple_line (G i) j 0) xs)"
  by (induction xs) (simp_all add: unlines_def pixel_line_triple)

lemma upto_map_int: "[0..int n - 1] = map int [0..<n]"
proof (induction n)
  case 0
  show ?case by simp
next
  case (Suc n)
  have "[0..int (Suc n) - 1] = [0..int n - 1] @ [int n]"
    using upto_rec2 [of 0 "int n"] by simp
  with Suc show ?case by simp
qed

lemma length_concat_rows:
  "length (concat (map (\<lambda>j. map (F j) [0..<n]) [0..<m])) = m * n"
  by (induction m) simp_all

lemma concat_rows_nth:
  "j < m \<Longrightarrow> i < n \<Longrightarrow> concat (map (\<lambda>j. map (F j) [0..<n]) [0..<m]) ! (j * n + i) = F j i"
proof (induction m)
  case 0
  then show ?case by simp
next
  case (Suc m)
  show ?case
  proof (cases "j < m")
    case True
    have "j * n + i < j * n + n" using Suc.prems(2) by simp
    also have "\<dots> = Suc j * n" by simp
    also have "\<dots> \<le> m * n" using True by (intro mult_le_mono1) simp
    finally have "j * n + i < m * n" .
    with Suc.IH [OF True Suc.prems(2)] show ?thesis
      by (simp add: nth_append length_concat_rows)
  next
    case False
    with Suc.prems(1) have "j = m" by simp
    with Suc.prems(2) show ?thesis
      by (simp add: nth_append length_concat_rows)
  qed
qed

lemma show_int_256: "show_int 256 = ''256''"
  by code_simp

lemma main_output:
  "main = Some (unlines ([''P3'', ''256 256'', ''255''] @
     concat (map (\<lambda>j. map (\<lambda>i. triple_line (int i) (int j) 0) [0..<256]) [0..<256])))"
proof -
  have hdr: "(printf ''P3\<newline>'' [] @ printf ''%d %d\<newline>'' [256, 256]) @ printf ''255\<newline>'' []
      = unlines [''P3'', ''256 256'', ''255'']"
    by (simp add: unlines_def show_int_256)
  have m: "main = outer_loop 256 256 0 (unlines [''P3'', ''256 256'', ''255''])"
    unfolding main_def Let_def hdr ..
  have px: "pixel 256 256 j i = Some (i, j, 0)" if "0 \<le> j" "j < 256" "0 \<le> i" "i < 256" for j i
    using that by (intro pixel_256) simp_all
  have up: "[0..255] = map int [0..<256]"
    using upto_map_int [of 256] by simp
  have "outer_loop 256 256 0 (unlines [''P3'', ''256 256'', ''255''])
      = Some (unlines [''P3'', ''256 256'', ''255''] @
          concat (map (\<lambda>j. concat (map (\<lambda>i. pixel_line (i, j, 0)) [0..256 - 1])) [0..256 - 1]))"
    using px by (intro outer_loop_run) simp_all
  also have "concat (map (\<lambda>j. concat (map (\<lambda>i. pixel_line (i, j, 0)) [0..256 - 1])) [0..256 - 1])
      = unlines (concat (map (\<lambda>j. map (\<lambda>i. triple_line (int i) (int j) 0) [0..<256]) [0..<256]))"
    by (simp add: row_text up unlines_concat comp_def del: upt_Suc upto.simps)
  finally show ?thesis
    unfolding m by (simp only: unlines_append)
qed

lemma main_lines:
  "\<exists>out. main = Some out \<and> unlines (lines_of out) = out \<and>
     length (lines_of out) = 3 + 65536 \<and>
     take 3 (lines_of out) = [''P3'', ''256 256'', ''255''] \<and>
     (\<forall>j < 256. \<forall>i < 256.
        lines_of out ! (3 + j * 256 + i) = triple_line (int i) (int j) 0)"
proof -
  define rows where
    "rows = concat (map (\<lambda>j. map (\<lambda>i. triple_line (int i) (int j) 0) [0..<256]) [0..<(256::nat)])"
  define ls where "ls = [''P3'', ''256 256'', ''255''] @ rows"
  have m: "main = Some (unlines ls)"
    unfolding ls_def rows_def by (rule main_output)
  have len: "length rows = 65536"
    unfolding rows_def by (simp only: length_concat_rows)
  have "\<forall>l \<in> set rows. CHR 0x0A \<notin> set l"
    unfolding rows_def by (auto simp: triple_line_no_newline simp del: upt_Suc)
  then have "\<forall>l \<in> set ls. CHR 0x0A \<notin> set l"
    by (simp add: ls_def)
  then have lo: "lines_of (unlines ls) = ls" by (rule lines_of_unlines)
  have nth: "ls ! (3 + j * 256 + i) = triple_line (int i) (int j) 0"
    if "j < 256" "i < 256" for j i
  proof -
    have "ls ! (3 + j * 256 + i) = rows ! (j * 256 + i)"
      by (simp add: ls_def nth_append add.assoc)
    also have "\<dots> = triple_line (int i) (int j) 0"
      unfolding rows_def using that by (rule concat_rows_nth)
    finally show ?thesis .
  qed
  have tk: "take 3 ls = [''P3'', ''256 256'', ''255'']" by (simp add: ls_def)
  have ll: "length ls = 3 + 65536" by (simp add: ls_def len)
  show ?thesis
  proof (intro exI conjI allI impI)
    show "main = Some (unlines ls)" by (rule m)
    show "unlines (lines_of (unlines ls)) = unlines ls" by (simp only: lo)
    show "length (lines_of (unlines ls)) = 3 + 65536" by (simp only: lo ll)
    show "take 3 (lines_of (unlines ls)) = [''P3'', ''256 256'', ''255'']"
      by (simp only: lo tk)
    show "lines_of (unlines ls) ! (3 + j * 256 + i) = triple_line (int i) (int j) 0"
      if "j < 256" "i < 256" for j i
      using that by (simp only: lo nth)
  qed
qed

section \<open>The claims of the specification\<close>

lemma show_int_values:
  "show_int 0 = ''0''" "show_int 7 = ''7''" "show_int 128 = ''128''"
  "show_int 200 = ''200''" "show_int 255 = ''255''"
  by code_simp+

lemma pixel_nat:
  "j < 256 \<Longrightarrow> i < 256 \<Longrightarrow> pixel 256 256 (int j) (int i) = Some (int i, int j, 0)"
  by (rule pixel_256) simp_all

lemma main_line_at:
  assumes "j < 256" "i < 256"
  shows "\<exists>out. main = Some out \<and> lines_of out ! (3 + j * 256 + i) = triple_line (int i) (int j) 0"
  using main_lines assms by blast

text \<open>
  C1. For every row \<open>j\<close> and column \<open>i\<close> from 0 to 255, the three integers that the loop
  body computes in \<open>double\<close> arithmetic, and that stand on the pixel's line of the output,
  are \<open>floor (r * 255.999)\<close>, \<open>floor (g * 255.999)\<close> and \<open>floor (b * 255.999)\<close> of the
  exact ratios \<open>r = i / 255\<close>, \<open>g = j / 255\<close>, \<open>b = 0\<close>: the roundings never carry a
  product across an integer.
\<close>

theorem pixel_values_floor_formula:
  assumes "j < 256" "i < 256"
  shows "pixel 256 256 (int j) (int i) = Some (spec_pixel 256 256 (int j) (int i)) \<and>
    (\<exists>out. main = Some out \<and>
       lines_of out ! (3 + j * 256 + i) =
         (case spec_pixel 256 256 (int j) (int i) of (a, b, c) \<Rightarrow> triple_line a b c))"
proof -
  have "spec_pixel 256 256 (int j) (int i) = (int i, int j, 0)"
    using assms by (intro spec_pixel_256) simp_all
  with pixel_nat [OF assms] main_line_at [OF assms] show ?thesis by simp
qed

theorem pixel_values_floor_formula_witness:
  "(7::nat) < 256 \<and> (200::nat) < 256 \<and>
   spec_pixel 256 256 7 200 = (200, 7, 0) \<and>
   pixel 256 256 7 200 = Some (200, 7, 0) \<and>
   (\<exists>out. main = Some out \<and> lines_of out ! 1995 = ''200 7 0'')"
proof -
  have s: "spec_pixel 256 256 7 200 = (200, 7, 0)"
    by (rule spec_pixel_256) simp_all
  show ?thesis
    using pixel_values_floor_formula [of 7 200]
    by (simp add: s triple_line_def show_int_values)
qed

text \<open>
  C2. The program returns, and its output is 3 + 65536 lines, each ended by a line feed,
  with nothing after the last: the output is the concatenation of its lines. Every line
  from the fourth on holds three integers separated by single spaces.
\<close>

theorem output_shape:
  "\<exists>out. main = Some out \<and> unlines (lines_of out) = out \<and>
     length (lines_of out) = 3 + 65536 \<and>
     (\<forall>n. 3 \<le> n \<and> n < 3 + 65536 \<longrightarrow>
        (\<exists>a b c. lines_of out ! n = triple_line a b c))"
proof -
  from main_lines obtain out where out: "main = Some out" "unlines (lines_of out) = out"
    "length (lines_of out) = 3 + 65536"
    "\<And>j i. j < 256 \<Longrightarrow> i < 256 \<Longrightarrow>
       lines_of out ! (3 + j * 256 + i) = triple_line (int i) (int j) 0"
    by blast
  have "\<exists>a b c. lines_of out ! n = triple_line a b c" if "3 \<le> n" "n < 3 + 65536" for n
  proof -
    define m where "m = n - 3"
    have "m div 256 < 256" "m mod 256 < 256" using that by (simp_all add: m_def)
    from out(4) [OF this] have "lines_of out ! (3 + m) = triple_line (int (m mod 256)) (int (m div 256)) 0"
      by (simp add: add.assoc)
    moreover have "3 + m = n" using that by (simp add: m_def)
    ultimately show ?thesis by auto
  qed
  with out(1-3) show ?thesis by blast
qed

theorem output_shape_witness:
  "\<exists>out. main = Some out \<and> unlines (lines_of out) = out \<and>
     length (lines_of out) = 65539 \<and>
     (3::nat) \<le> 3 \<and> (3::nat) < 3 + 65536 \<and> (\<exists>a b c. lines_of out ! 3 = triple_line a b c)"
proof -
  from output_shape obtain out where "main = Some out" "unlines (lines_of out) = out"
    "length (lines_of out) = 3 + 65536"
    "\<forall>n. 3 \<le> n \<and> n < 3 + 65536 \<longrightarrow> (\<exists>a b c. lines_of out ! n = triple_line a b c)"
    by blast
  moreover from this(4) have "\<exists>a b c. lines_of out ! 3 = triple_line a b c"
    by simp
  ultimately show ?thesis by auto
qed

text \<open>
  C3. The first three lines of the output are \<open>P3\<close>, \<open>256 256\<close> and \<open>255\<close>.
\<close>

theorem header_lines:
  "\<exists>out. main = Some out \<and> lines_of out ! 0 = ''P3'' \<and>
     lines_of out ! 1 = ''256 256'' \<and> lines_of out ! 2 = ''255''"
proof -
  from main_lines obtain out where out: "main = Some out"
    "take 3 (lines_of out) = [''P3'', ''256 256'', ''255'']" by blast
  have "lines_of out ! 0 = take 3 (lines_of out) ! 0"
    "lines_of out ! 1 = take 3 (lines_of out) ! 1"
    "lines_of out ! 2 = take 3 (lines_of out) ! 2"
    by simp_all
  with out show ?thesis by (intro exI [of _ out]) simp
qed

text \<open>
  C4. Pixel lines come in row-major order from the top-left pixel: what the loop body
  prints for row \<open>j\<close>, column \<open>i\<close> is line number \<open>3 + j * 256 + i + 1\<close> of the output,
  which is index \<open>3 + j * 256 + i\<close> counting from zero.
\<close>

theorem row_major_order:
  assumes "j < 256" "i < 256"
  shows "\<exists>out p. main = Some out \<and> pixel 256 256 (int j) (int i) = Some p \<and>
    pixel_line p = lines_of out ! (3 + j * 256 + i) @ ''\<newline>''"
  using pixel_nat [OF assms] main_line_at [OF assms]
  by (auto simp: pixel_line_triple)

theorem row_major_order_witness:
  "(1::nat) < 256 \<and> (2::nat) < 256 \<and>
   (\<exists>out p. main = Some out \<and> pixel 256 256 1 2 = Some p \<and>
      pixel_line p = lines_of out ! 261 @ ''\<newline>'')"
  using row_major_order [of 1 2] by simp

text \<open>
  C5. The pixel of row 0, column 0 is \<open>0 0 0\<close>, that of row 0, column 255 is \<open>255 0 0\<close>
  and that of row 255, column 0 is \<open>0 255 0\<close>, as values of the loop body and as lines of
  the output.
\<close>

theorem corner_pixels:
  "pixel 256 256 0 0 = Some (0, 0, 0) \<and>
   pixel 256 256 0 255 = Some (255, 0, 0) \<and>
   pixel 256 256 255 0 = Some (0, 255, 0) \<and>
   (\<exists>out. main = Some out \<and>
      lines_of out ! 3 = ''0 0 0'' \<and>
      lines_of out ! (3 + 0 * 256 + 255) = ''255 0 0'' \<and>
      lines_of out ! (3 + 255 * 256 + 0) = ''0 255 0'')"
proof -
  from main_lines obtain out where out: "main = Some out"
    "\<And>j i. j < 256 \<Longrightarrow> i < 256 \<Longrightarrow>
       lines_of out ! (3 + j * 256 + i) = triple_line (int i) (int j) 0"
    by blast
  have "lines_of out ! 3 = ''0 0 0''"
    using out(2) [of 0 0] by (simp add: triple_line_def show_int_values)
  moreover have "lines_of out ! (3 + 0 * 256 + 255) = ''255 0 0''"
    using out(2) [of 0 255] by (simp add: triple_line_def show_int_values)
  moreover have "lines_of out ! (3 + 255 * 256 + 0) = ''0 255 0''"
    using out(2) [of 255 0] by (simp add: triple_line_def show_int_values)
  moreover have "pixel 256 256 0 0 = Some (0, 0, 0)"
    "pixel 256 256 0 255 = Some (255, 0, 0)"
    "pixel 256 256 255 0 = Some (0, 255, 0)"
    by (rule pixel_256; simp)+
  ultimately show ?thesis using out(1) by blast
qed

text \<open>
  C6. The pixel of row 128, column 128 is \<open>128 128 0\<close>, and \<open>floor ((128 / 255) * 255.999)\<close>
  is 128.
\<close>

theorem centre_pixel:
  "pixel 256 256 128 128 = Some (128, 128, 0) \<and>
   spec_intensity (128 / 255) = 128 \<and>
   (\<exists>out. main = Some out \<and> lines_of out ! (3 + 128 * 256 + 128) = ''128 128 0'')"
proof -
  have "pixel 256 256 128 128 = Some (128, 128, 0)"
    by (rule pixel_256) simp_all
  moreover have "spec_intensity (128 / 255) = 128"
    using spec_intensity_ratio [of 128] by simp
  moreover have "\<exists>out. main = Some out \<and> lines_of out ! (3 + 128 * 256 + 128) = ''128 128 0''"
    using main_line_at [of 128 128] by (simp add: triple_line_def show_int_values)
  ultimately show ?thesis by blast
qed

text \<open>
  C7. For every pixel the third integer, the blue channel, is 0.
\<close>

theorem blue_channel_zero:
  assumes "j < 256" "i < 256"
  shows "\<exists>a b. pixel 256 256 (int j) (int i) = Some (a, b, 0) \<and>
    (\<exists>out. main = Some out \<and> lines_of out ! (3 + j * 256 + i) = triple_line a b 0)"
  using pixel_nat [OF assms] main_line_at [OF assms] by blast

theorem blue_channel_zero_witness:
  "(255::nat) < 256 \<and> (255::nat) < 256 \<and>
   (\<exists>a b. pixel 256 256 255 255 = Some (a, b, 0) \<and>
     (\<exists>out. main = Some out \<and> lines_of out ! 65538 = triple_line a b 0))"
  using blue_channel_zero [of 255 255] by simp

text \<open>
  C8. Within a row the red value does not decrease from a column \<open>i\<close> to a later column
  \<open>i'\<close>, and within a column the green value does not decrease from a row \<open>j\<close> to a later
  row \<open>j'\<close>.
\<close>

theorem channels_monotone:
  assumes "j \<le> j'" "j' < 256" "i \<le> i'" "i' < 256"
  shows "\<exists>r g b r' g' b' r'' g'' b''.
    pixel 256 256 (int j) (int i) = Some (r, g, b) \<and>
    pixel 256 256 (int j) (int i') = Some (r', g', b') \<and>
    pixel 256 256 (int j') (int i) = Some (r'', g'', b'') \<and>
    r \<le> r' \<and> g \<le> g''"
proof -
  have "j < 256" "i < 256" using assms by simp_all
  with assms pixel_nat [of j i] pixel_nat [of j i'] pixel_nat [of j' i]
  show ?thesis by simp
qed

theorem channels_monotone_witness:
  "(3::nat) \<le> 9 \<and> (9::nat) < 256 \<and> (100::nat) \<le> 101 \<and> (101::nat) < 256 \<and>
   (\<exists>r g b r' g' b' r'' g'' b''.
      pixel 256 256 3 100 = Some (r, g, b) \<and>
      pixel 256 256 3 101 = Some (r', g', b') \<and>
      pixel 256 256 9 100 = Some (r'', g'', b'') \<and>
      r \<le> r' \<and> g \<le> g'')"
  using channels_monotone [of 3 9 100 101] by simp

text \<open>
  C9. Every integer on a pixel line lies between 0 and 255; none reaches 256.
\<close>

theorem channel_range:
  assumes "j < 256" "i < 256"
  shows "\<exists>a b c. pixel 256 256 (int j) (int i) = Some (a, b, c) \<and>
    (\<exists>out. main = Some out \<and> lines_of out ! (3 + j * 256 + i) = triple_line a b c) \<and>
    0 \<le> a \<and> a \<le> 255 \<and> 0 \<le> b \<and> b \<le> 255 \<and> 0 \<le> c \<and> c \<le> 255"
  using pixel_nat [OF assms] main_line_at [OF assms] assms by simp

theorem channel_range_witness:
  "(255::nat) < 256 \<and> (0::nat) < 256 \<and>
   (\<exists>a b c. pixel 256 256 255 0 = Some (a, b, c) \<and>
     (\<exists>out. main = Some out \<and> lines_of out ! 65283 = triple_line a b c) \<and>
     0 \<le> a \<and> a \<le> 255 \<and> 0 \<le> b \<and> b \<le> 255 \<and> 0 \<le> c \<and> c \<le> 255)"
  using channel_range [of 255 0] by simp

text \<open>
  C10. The gradient is the identity on coordinates: the pixel of row \<open>j\<close>, column \<open>i\<close> has
  red \<open>i\<close>, green \<open>j\<close> and blue 0, and its line reads \<open>i j 0\<close>.
\<close>

theorem gradient_identity:
  assumes "j < 256" "i < 256"
  shows "pixel 256 256 (int j) (int i) = Some (int i, int j, 0) \<and>
    (\<exists>out. main = Some out \<and>
       lines_of out ! (3 + j * 256 + i) = show_int (int i) @ '' '' @ show_int (int j) @ '' 0'')"
  using pixel_nat [OF assms] main_line_at [OF assms]
  by (simp add: triple_line_def show_int_values)

theorem gradient_identity_witness:
  "(7::nat) < 256 \<and> (200::nat) < 256 \<and>
   pixel 256 256 7 200 = Some (200, 7, 0) \<and>
   (\<exists>out. main = Some out \<and> lines_of out ! 1995 = ''200 7 0'')"
  using gradient_identity [of 7 200] by (simp add: show_int_values)

end
